theory Spec2Isabelle
  imports Complex_Main "HOL-Library.Sublist"
begin

section \<open>Python strings and the built-ins the extractor uses\<close>

text \<open>
  A Python \<^verbatim>\<open>str\<close> is a sequence of Unicode code points: slicing, \<^verbatim>\<open>in\<close>, \<^verbatim>\<open>split\<close> and
  \<^verbatim>\<open>[::-1]\<close> all count code points, and the Hebrew letters of the program lie outside ASCII.
  A string is therefore a list of code points, each a natural number. A table cell as
  the PDF library hands it over is a string or \<^verbatim>\<open>None\<close>.
\<close>

type_synonym ustring = "nat list"
type_synonym cell = "ustring option"
type_synonym row = "cell list"
type_synonym table = "row list"

text \<open>The code points for which \<^verbatim>\<open>str.isspace\<close> holds; \<^verbatim>\<open>strip()\<close> and \<^verbatim>\<open>split()\<close> use them.\<close>

definition is_space :: "nat \<Rightarrow> bool" where
  "is_space c = (c \<in> set [9, 10, 11, 12, 13, 28, 29, 30, 31, 32, 133, 160, 5760,
     8192, 8193, 8194, 8195, 8196, 8197, 8198, 8199, 8200, 8201, 8202,
     8232, 8233, 8239, 8287, 12288])"

definition lstrip :: "ustring \<Rightarrow> ustring" where
  "lstrip s = dropWhile is_space s"

definition rstrip :: "ustring \<Rightarrow> ustring" where
  "rstrip s = rev (dropWhile is_space (rev s))"

text \<open>\<^verbatim>\<open>s.strip()\<close>\<close>

definition strip :: "ustring \<Rightarrow> ustring" where
  "strip s = rstrip (lstrip s)"

text \<open>\<^verbatim>\<open>s.replace(a, b)\<close> for one-character \<^verbatim>\<open>a\<close> and \<^verbatim>\<open>b\<close>, and \<^verbatim>\<open>s.replace(a, '')\<close>.\<close>

definition replace_chr :: "nat \<Rightarrow> nat \<Rightarrow> ustring \<Rightarrow> ustring" where
  "replace_chr a b s = map (\<lambda>c. if c = a then b else c) s"

definition remove_chr :: "nat \<Rightarrow> ustring \<Rightarrow> ustring" where
  "remove_chr a s = filter (\<lambda>c. c \<noteq> a) s"

text \<open>
  \<^verbatim>\<open>s.split()\<close> without arguments: the maximal runs of non-whitespace characters, in
  order; never an empty word.
\<close>

fun split_ws :: "ustring \<Rightarrow> ustring list" where
  "split_ws [] = []"
| "split_ws (c # cs) =
     (if is_space c then split_ws cs
      else (case cs of
              [] \<Rightarrow> [[c]]
            | d # _ \<Rightarrow>
                if is_space d then [c] # split_ws cs
                else (case split_ws cs of w # ws \<Rightarrow> (c # w) # ws | [] \<Rightarrow> [[c]])))"

text \<open>\<^verbatim>\<open>' '.join(ws)\<close>\<close>

fun join_sp :: "ustring list \<Rightarrow> ustring" where
  "join_sp [] = []"
| "join_sp [w] = w"
| "join_sp (w # v # ws) = w @ 32 # join_sp (v # ws)"

text \<open>\<^verbatim>\<open>p in t\<close> on strings: \<^verbatim>\<open>p\<close> occurs in \<^verbatim>\<open>t\<close> as a contiguous block.\<close>

fun py_in :: "ustring \<Rightarrow> ustring \<Rightarrow> bool" where
  "py_in p [] = (p = [])"
| "py_in p (c # cs) = (prefix p (c # cs) \<or> py_in p cs)"

text \<open>\<^verbatim>\<open>str(i)\<close> for a non-negative integer, and the placeholder \<^verbatim>\<open>f'col_{i}'\<close>.\<close>

fun str_nat :: "nat \<Rightarrow> ustring" where
  "str_nat n = (if n < 10 then [48 + n] else str_nat (n div 10) @ [48 + n mod 10])"

declare str_nat.simps [simp del]

definition col_placeholder :: "nat \<Rightarrow> ustring" where
  "col_placeholder i = [99, 111, 108, 95] @ str_nat i"

text \<open>
  The truth value Python gives a cell in \<^verbatim>\<open>if c\<close>: \<^verbatim>\<open>None\<close> and the empty string are false.
  \<^verbatim>\<open>str(c) if c else ''\<close> is then the text of the cell.
\<close>

definition cell_truthy :: "cell \<Rightarrow> bool" where
  "cell_truthy c = (case c of None \<Rightarrow> False | Some s \<Rightarrow> s \<noteq> [])"

definition cell_str :: "cell \<Rightarrow> ustring" where
  "cell_str c = (case c of None \<Rightarrow> [] | Some s \<Rightarrow> s)"

section \<open>The numeric parser\<close>

text \<open>
  \<^verbatim>\<open>parse_num\<close> calls the built-in \<^verbatim>\<open>float\<close>, which either returns a float or raises
  \<^verbatim>\<open>ValueError\<close>; the bare \<^verbatim>\<open>except\<close> turns the exception into \<^verbatim>\<open>0.0\<close>. The built-in is
  not part of the program, and its result is a binary floating-point number, so it is a
  parameter here: a function to \<open>'f option\<close>, \<open>None\<close> standing for the exception, over
  any type \<open>'f\<close> of numbers with a zero. Everything proved below holds for every such
  function. The characters removed are the comma (44), the shekel sign (8362) and the
  percent sign (37).
\<close>

definition clean_num :: "ustring \<Rightarrow> ustring" where
  "clean_num s = strip (remove_chr 37 (remove_chr 8362 (remove_chr 44 s)))"

definition parse_num :: "(ustring \<Rightarrow> 'f option) \<Rightarrow> ustring option \<Rightarrow> 'f::zero" where
  "parse_num pyfloat s =
     (case s of
        None \<Rightarrow> 0
      | Some t \<Rightarrow>
          (let cleaned = clean_num t in
           if cleaned = [] then 0
           else (case pyfloat cleaned of None \<Rightarrow> 0 | Some x \<Rightarrow> x)))"

text \<open>
  For closed examples a concrete parser is needed. \<open>plain_float\<close> reads the plain
  decimal literals (digits, optionally a point and more digits) and gives their exact
  value as a rational; on them \<^verbatim>\<open>float\<close> returns the nearest double, which is the same
  number for the integers and zeros used in the examples below. Every other string is
  refused here. It is used only at concrete inputs of that form or at text on which
  \<^verbatim>\<open>float\<close> raises.
\<close>

definition is_digit :: "nat \<Rightarrow> bool" where
  "is_digit c = (48 \<le> c \<and> c \<le> 57)"

definition digits_val :: "ustring \<Rightarrow> nat" where
  "digits_val ds = foldl (\<lambda>a d. 10 * a + (d - 48)) 0 ds"

definition plain_float :: "ustring \<Rightarrow> rat option" where
  "plain_float s =
     (let ip = takeWhile is_digit s; rest = dropWhile is_digit s in
      case rest of
        [] \<Rightarrow> if ip = [] then None else Some (of_nat (digits_val ip))
      | c # fp \<Rightarrow>
          if c = 46 \<and> list_all is_digit fp \<and> (ip \<noteq> [] \<or> fp \<noteq> [])
          then Some (of_nat (digits_val ip) + of_nat (digits_val fp) / 10 ^ length fp)
          else None)"

section \<open>The text normalizer\<close>

text \<open>
  The fragments whose presence makes \<^verbatim>\<open>fix_hebrew\<close> reverse the text: the Hebrew words
  for with, stage, contract, amount, cumulative, account and execution, each written
  backwards.
\<close>

definition reversed_patterns :: "ustring list" where
  "reversed_patterns =
     [[1501, 1506],
      [1489, 1500, 1513],
      [1492, 1494, 1493, 1495],
      [1501, 1493, 1499, 1505],
      [1512, 1489, 1496, 1510, 1502],
      [1503, 1493, 1489, 1513, 1495],
      [1506, 1493, 1510, 1497, 1489]]"

text \<open>
  \<^verbatim>\<open>fix_hebrew(s)\<close> on a string. The early return \<^verbatim>\<open>if not s: return s\<close> gives the empty
  string back. (The program only calls it on strings.)
\<close>

definition fix_hebrew :: "ustring \<Rightarrow> ustring" where
  "fix_hebrew s =
     (if s = [] then s
      else
        (let text = strip s;
             text = replace_chr 13 32 (replace_chr 10 32 text);
             text = join_sp (split_ws text)
         in if list_ex (\<lambda>p. py_in p text) reversed_patterns then rev text else text))"

text \<open>
  The normalizer as the specification words it: newline and carriage-return characters
  become spaces, every run of whitespace becomes one space, and the ends are trimmed.
\<close>

fun collapse_ws :: "ustring \<Rightarrow> ustring" where
  "collapse_ws [] = []"
| "collapse_ws [c] = [if is_space c then 32 else c]"
| "collapse_ws (c # d # cs) =
     (if is_space c \<and> is_space d then collapse_ws (d # cs)
      else (if is_space c then 32 else c) # collapse_ws (d # cs))"

definition spec_normalize :: "ustring \<Rightarrow> ustring" where
  "spec_normalize s = strip (collapse_ws (replace_chr 13 32 (replace_chr 10 32 s)))"

definition has_reversed_fragment :: "ustring \<Rightarrow> bool" where
  "has_reversed_fragment t = (\<exists>p \<in> set reversed_patterns. py_in p t)"

section \<open>Tables, headers and phases\<close>

text \<open>
  A value stored in a phase is a number (a Python float, or the integer \<^verbatim>\<open>0\<close> the
  totals start from) or a text. A phase is a Python \<^verbatim>\<open>dict\<close> from column names to
  such values; it is kept as an association list in insertion order, and assigning to a
  key that is present replaces its value in place, as \<^verbatim>\<open>d[k] = v\<close> does.
\<close>

datatype 'f pyval = Num 'f | Text ustring

type_synonym 'f phase = "(ustring \<times> 'f pyval) list"

fun dict_set :: "ustring \<Rightarrow> 'v \<Rightarrow> (ustring \<times> 'v) list \<Rightarrow> (ustring \<times> 'v) list" where
  "dict_set k v [] = [(k, v)]"
| "dict_set k v ((k', v') # d) = (if k' = k then (k, v) # d else (k', v') # dict_set k v d)"

text \<open>\<^verbatim>\<open>d.get(k)\<close>: \<open>None\<close> when the key is absent.\<close>

definition dict_get :: "(ustring \<times> 'v) list \<Rightarrow> ustring \<Rightarrow> 'v option" where
  "dict_get d k = map_of d k"

definition keys :: "(ustring \<times> 'v) list \<Rightarrow> ustring set" where
  "keys d = fst ` set d"

text \<open>The truth value of a stored value: a number is true unless it equals zero, a text unless empty.\<close>

fun truthy :: "'f::zero pyval \<Rightarrow> bool" where
  "truthy (Num x) = (x \<noteq> 0)"
| "truthy (Text s) = (s \<noteq> [])"

text \<open>
  The result of \<^verbatim>\<open>extract\<close>. The fields \<^verbatim>\<open>company\<close> and \<^verbatim>\<open>vat_total\<close> are computed from
  the page text alone, apart from the tables, and are left out.
\<close>

record 'f data =
  contract_total :: "'f pyval"
  billed_total :: 'f
  phases :: "'f phase list"
  headers :: "ustring list"

text \<open>What the PDF library gives for a page: its text (or \<^verbatim>\<open>None\<close>) and its tables, in order.\<close>

record page =
  page_text :: "ustring option"
  page_tables :: "table list"

definition all_tables :: "page list \<Rightarrow> table list" where
  "all_tables pdf = concat (map page_tables pdf)"

text \<open>\<^verbatim>\<open>' '.join(str(c) for c in row if c)\<close>\<close>

definition row_text :: "row \<Rightarrow> ustring" where
  "row_text r = join_sp (map cell_str (filter cell_truthy r))"

text \<open>The stage marker (Hebrew for stage) and the same word backwards.\<close>

definition stage_marker :: ustring where
  "stage_marker = [1513, 1500, 1489]"

definition stage_marker_rev :: ustring where
  "stage_marker_rev = [1489, 1500, 1513]"

text \<open>
  The three \<^verbatim>\<open>continue\<close> tests at the head of the table loop: a table is processed when
  none of them fires.
\<close>

definition is_milestone_table :: "table \<Rightarrow> bool" where
  "is_milestone_table t =
     (case t of
        [] \<Rightarrow> False
      | header # rest \<Rightarrow>
          \<not> length t < 2 \<and> \<not> (header = [] \<or> length header < 4) \<and>
          \<not> (\<not> py_in stage_marker (row_text header) \<and> \<not> py_in stage_marker_rev (row_text header)))"

text \<open>\<^verbatim>\<open>[fix_hebrew(str(h)) if h else f'col_{i}' for i, h in enumerate(header)]\<close>\<close>

definition build_headers :: "row \<Rightarrow> ustring list" where
  "build_headers header =
     map (\<lambda>(i, h). if cell_truthy h then fix_hebrew (cell_str h) else col_placeholder i)
       (enumerate 0 header)"

text \<open>\<^verbatim>\<open>data['headers'][i] if i < len(data['headers']) else f'col_{i}'\<close>\<close>

definition col_name :: "ustring list \<Rightarrow> nat \<Rightarrow> ustring" where
  "col_name hs i = (if i < length hs then hs ! i else col_placeholder i)"

text \<open>
  The raw value of a cell: its text (empty for a false cell), newlines and carriage
  returns replaced by spaces, then \<^verbatim>\<open>' '.join(raw_val.split())\<close>.
\<close>

definition raw_value :: "cell \<Rightarrow> ustring" where
  "raw_value c =
     (let raw_val = (if cell_truthy c then cell_str c else []);
          raw_val = replace_chr 13 32 (replace_chr 10 32 raw_val)
      in join_sp (split_ws raw_val))"

text \<open>The value stored for a cell: the number or the fixed text.\<close>

definition cell_value :: "(ustring \<Rightarrow> 'f option) \<Rightarrow> cell \<Rightarrow> 'f::zero pyval" where
  "cell_value pyfloat c =
     (let raw_val = raw_value c;
          fixed_val = fix_hebrew raw_val;
          num_val = parse_num pyfloat (Some raw_val)
      in if num_val \<noteq> 0 \<or> strip raw_val \<in> set [[48], [48, 46, 48], [48, 46, 48, 48]]
         then Num num_val else Text fixed_val)"

text \<open>The loop over the cells of a row, \<open>i\<close> being the index of the next cell.\<close>

fun fill_phase ::
  "(ustring \<Rightarrow> 'f option) \<Rightarrow> ustring list \<Rightarrow> nat \<Rightarrow> row \<Rightarrow> 'f phase \<Rightarrow> 'f::zero phase" where
  "fill_phase pyfloat hs i [] phase = phase"
| "fill_phase pyfloat hs i (c # cs) phase =
     fill_phase pyfloat hs (Suc i) cs (dict_set (col_name hs i) (cell_value pyfloat c) phase)"

definition stage_key :: ustring where
  "stage_key = [95, 115, 116, 97, 103, 101]"

definition stage_col :: "ustring list \<Rightarrow> ustring" where
  "stage_col hs = (if hs \<noteq> [] then last hs else [115, 116, 97, 103, 101])"

definition build_phase :: "(ustring \<Rightarrow> 'f option) \<Rightarrow> ustring list \<Rightarrow> row \<Rightarrow> 'f::zero phase" where
  "build_phase pyfloat hs r =
     (let phase = fill_phase pyfloat hs 0 r []
      in dict_set stage_key
           (case dict_get phase (stage_col hs) of None \<Rightarrow> Text [] | Some v \<Rightarrow> v) phase)"

text \<open>
  The markers of a summary row: total amount and the same backwards, cumulative amount
  and the same backwards, and the abbreviation for grand total.
\<close>

definition skip_words :: "ustring list" where
  "skip_words =
     [[1505, 1499, 1493, 1501, 32, 1499, 1493, 1500, 1500],
      [1500, 1500, 1493, 1499, 32, 1501, 1493, 1499, 1505],
      [1505, 1499, 1493, 1501, 32, 1502, 1510, 1496, 1489, 1512],
      [1512, 1489, 1496, 1510, 1502, 32, 1501, 1493, 1499, 1505],
      [1505, 1492, 34, 1499]]"

text \<open>The three \<^verbatim>\<open>continue\<close> tests of the row loop.\<close>

definition skip_row :: "row \<Rightarrow> bool" where
  "skip_row r =
     (r = [] \<or> list_ex (\<lambda>w. py_in w (row_text r)) skip_words \<or> \<not> list_ex cell_truthy r)"

fun scan_rows ::
  "(ustring \<Rightarrow> 'f option) \<Rightarrow> ustring list \<Rightarrow> row list \<Rightarrow> 'f phase list \<Rightarrow> 'f::zero phase list" where
  "scan_rows pyfloat hs [] ps = ps"
| "scan_rows pyfloat hs (r # rs) ps =
     (if skip_row r then scan_rows pyfloat hs rs ps
      else scan_rows pyfloat hs rs (ps @ [build_phase pyfloat hs r]))"

text \<open>The loop over all tables: it has no \<^verbatim>\<open>break\<close>, so every table is visited.\<close>

fun scan_tables :: "(ustring \<Rightarrow> 'f option) \<Rightarrow> table list \<Rightarrow> 'f data \<Rightarrow> 'f::zero data" where
  "scan_tables pyfloat [] d = d"
| "scan_tables pyfloat (t # ts) d =
     (if \<not> is_milestone_table t then scan_tables pyfloat ts d
      else
        (case t of
           [] \<Rightarrow> scan_tables pyfloat ts d
         | header # rest \<Rightarrow>
             (let hs = build_headers header
              in scan_tables pyfloat ts
                   (d\<lparr>headers := hs, phases := scan_rows pyfloat hs rest (phases d)\<rparr>))))"

section \<open>The totals\<close>

text \<open>The tokens amount, account, cumulative, this invoice and on invoice.\<close>

definition tok_amount :: ustring where
  "tok_amount = [1505, 1499, 1493, 1501]"

definition tok_account :: ustring where
  "tok_account = [1495, 1513, 1489, 1493, 1503]"

definition tok_cumulative :: ustring where
  "tok_cumulative = [1502, 1510, 1496, 1489, 1512]"

definition tok_this_invoice :: ustring where
  "tok_this_invoice = [1495, 1513, 1489, 1493, 1503, 32, 1494, 1492]"

definition tok_on_invoice :: ustring where
  "tok_on_invoice = [1489, 1495, 1513, 1489, 1493, 1503]"

definition is_contract_header :: "ustring \<Rightarrow> bool" where
  "is_contract_header h =
     (py_in tok_amount h \<and> \<not> py_in tok_account h \<and> \<not> py_in tok_cumulative h)"

definition is_billed_header :: "ustring \<Rightarrow> bool" where
  "is_billed_header h = (py_in tok_this_invoice h \<or> py_in tok_on_invoice h)"

text \<open>The loop over the headers; both variables are assigned at every match.\<close>

fun pick_columns ::
  "ustring list \<Rightarrow> ustring option \<times> ustring option \<Rightarrow> ustring option \<times> ustring option" where
  "pick_columns [] cols = cols"
| "pick_columns (h # hs) (contract_col, billed_col) =
     pick_columns hs
       (if is_contract_header h then Some h else contract_col,
        if is_billed_header h then Some h else billed_col)"

text \<open>The truth value of a column variable: \<^verbatim>\<open>None\<close> and the empty string are false.\<close>

definition col_truthy :: "ustring option \<Rightarrow> bool" where
  "col_truthy c = (case c of None \<Rightarrow> False | Some s \<Rightarrow> s \<noteq> [])"

definition select_columns :: "ustring list \<Rightarrow> ustring option \<times> ustring option" where
  "select_columns hs =
     (case pick_columns hs (None, None) of
        (contract_col, billed_col) \<Rightarrow>
          (contract_col,
           if \<not> col_truthy billed_col \<and> hs \<noteq> [] then Some (hd hs) else billed_col))"

text \<open>
  The loop over the phases. \<^verbatim>\<open>p.get(billed_col, 0)\<close> yields the integer \<^verbatim>\<open>0\<close> for an
  absent key, which is then added.
\<close>

fun sum_phases ::
  "ustring option \<Rightarrow> ustring option \<Rightarrow> 'f phase list \<Rightarrow> 'f pyval \<times> 'f \<Rightarrow>
   'f pyval \<times> 'f::{zero,plus}" where
  "sum_phases contract_col billed_col [] tot = tot"
| "sum_phases contract_col billed_col (p # ps) (ct, bt) =
     (let ct' =
            (case contract_col of
               None \<Rightarrow> ct
             | Some c \<Rightarrow>
                 if c = [] then ct
                 else (case dict_get p c of
                         None \<Rightarrow> ct
                       | Some v \<Rightarrow> if truthy v then v else ct));
          bt' =
            (case billed_col of
               None \<Rightarrow> bt
             | Some b \<Rightarrow>
                 if b = [] then bt
                 else (case dict_get p b of
                         None \<Rightarrow> bt + 0
                       | Some (Num x) \<Rightarrow> bt + x
                       | Some (Text s) \<Rightarrow> bt))
      in sum_phases contract_col billed_col ps (ct', bt'))"

text \<open>The test \<^verbatim>\<open>p.get(contract_col)\<close>: the phase has a true value under the column.\<close>

definition holds_truthy :: "ustring \<Rightarrow> 'f::zero phase \<Rightarrow> bool" where
  "holds_truthy c p = (case dict_get p c of None \<Rightarrow> False | Some v \<Rightarrow> truthy v)"

definition compute_totals :: "'f data \<Rightarrow> 'f::{zero,plus} data" where
  "compute_totals d =
     (if phases d \<noteq> [] then
        (case select_columns (headers d) of
           (contract_col, billed_col) \<Rightarrow>
             (case sum_phases contract_col billed_col (phases d)
                     (contract_total d, billed_total d) of
                (ct, bt) \<Rightarrow> d\<lparr>contract_total := ct, billed_total := bt\<rparr>))
      else d)"

definition init_data :: "'f::{zero,plus} data" where
  "init_data = \<lparr>contract_total = Num 0, billed_total = 0, phases = [], headers = []\<rparr>"

text \<open>
  \<^verbatim>\<open>extract(pdf_file)\<close>, from the pages on. (The name \<open>extract\<close> is taken by Isabelle, hence
  the suffix.)
\<close>

definition extract_pdf :: "(ustring \<Rightarrow> 'f option) \<Rightarrow> page list \<Rightarrow> 'f::{zero,plus} data" where
  "extract_pdf pyfloat pdf = compute_totals (scan_tables pyfloat (all_tables pdf) init_data)"

section \<open>Example documents\<close>

text \<open>
  Small documents for the closed examples below. \<open>table_a\<close> and \<open>table_b\<close> both have
  the stage marker in a header row of four cells; \<open>table_plain\<close> has no marker.
\<close>

definition table_a :: table where
  "table_a = [[Some [1513, 1500, 1489], Some [97], Some [98], Some [99]],
              [Some [120], None, None, None]]"

definition table_b :: table where
  "table_b = [[Some [1513, 1500, 1489], Some [100], Some [101], Some [102]],
              [Some [121], None, None, None]]"

definition table_plain :: table where
  "table_plain = [[Some [97], Some [98], Some [99], Some [100]],
                  [Some [49], None, None, None]]"

definition two_page_pdf :: "page list" where
  "two_page_pdf = [\<lparr>page_text = None, page_tables = [table_a]\<rparr>,
                   \<lparr>page_text = None, page_tables = [table_plain, table_b]\<rparr>]"

definition plain_pdf :: "page list" where
  "plain_pdf = [\<lparr>page_text = None, page_tables = [table_plain]\<rparr>]"

text \<open>
  In \<open>table_dup\<close> the last header repeats the first and the row has one cell; the row
  of \<open>table_summary\<close> carries the abbreviation for grand total written backwards.
\<close>

definition table_dup :: table where
  "table_dup = [[Some [1513, 1500, 1489], Some [97], Some [98], Some [1513, 1500, 1489]],
                [Some [120]]]"

definition dup_pdf :: "page list" where
  "dup_pdf = [\<lparr>page_text = None, page_tables = [table_dup]\<rparr>]"

definition table_summary :: table where
  "table_summary = [[Some [1513, 1500, 1489], Some [97], Some [98], Some [99]],
                    [Some [1499, 34, 1492, 1505], Some [53], None, None]]"

definition summary_pdf :: "page list" where
  "summary_pdf = [\<lparr>page_text = None, page_tables = [table_summary]\<rparr>]"

text \<open>
  Headers for the column selection: two that pass the contract-amount test, two that
  pass the billed test, and a record with two phases for the totals.
\<close>

definition amount_headers :: "ustring list" where
  "amount_headers =
     [[1505, 1499, 1493, 1501], [1505, 1499, 1493, 1501, 50],
      [1489, 1495, 1513, 1489, 1493, 1503], [1489, 1495, 1513, 1489, 1493, 1503, 50]]"

definition two_phase_data :: "rat data" where
  "two_phase_data =
     \<lparr>contract_total = Num 0, billed_total = 0,
      phases = [[([1505, 1499, 1493, 1501], Num 2000), ([120], Text [97])],
                [([1505, 1499, 1493, 1501], Num 1000), ([120], Text [])],
                [([1505, 1499, 1493, 1501], Num 0), ([120], Text [98])]],
      headers = [[1505, 1499, 1493, 1501], [120]]\<rparr>"

section \<open>Results about the parser\<close>

lemma parse_num_cases:
  "parse_num pf (Some s) =
     (if clean_num s = [] then 0 else case pf (clean_num s) of None \<Rightarrow> 0 | Some x \<Rightarrow> x)"
  by (simp add: parse_num_def Let_def)

text \<open>
  C8. The numeric parser is a total function into the numbers: whatever the built-in
  \<^verbatim>\<open>float\<close> does, no exception leaves \<^verbatim>\<open>parse_num\<close>. It returns 0 for \<^verbatim>\<open>None\<close> and for the empty
  string; and once commas, the currency sign and the percent sign are removed and the
  ends trimmed, it returns 0 when nothing is left and when \<^verbatim>\<open>float\<close> raises on what is left.
\<close>

theorem parse_num_never_raises:
  "parse_num pf None = 0 \<and> parse_num pf (Some []) = 0 \<and>
   (clean_num s = [] \<longrightarrow> parse_num pf (Some s) = 0) \<and>
   (pf (clean_num s) = None \<longrightarrow> parse_num pf (Some s) = 0)"
  by (simp add: parse_num_def Let_def clean_num_def remove_chr_def strip_def lstrip_def rstrip_def)

lemma clean_num_examples:
  "clean_num [44, 37] = []" "clean_num [97, 98, 99] = [97, 98, 99]"
  by (simp_all add: clean_num_def remove_chr_def strip_def lstrip_def rstrip_def is_space_def)

theorem parse_num_never_raises_witness:
  "clean_num [44, 37] = [] \<and> parse_num plain_float (Some [44, 37]) = 0 \<and>
   plain_float (clean_num [97, 98, 99]) = None \<and> parse_num plain_float (Some [97, 98, 99]) = 0"
proof -
  have unparsed: "plain_float (clean_num [97, 98, 99]) = None"
    by (simp add: clean_num_examples plain_float_def is_digit_def)
  show ?thesis
    using parse_num_never_raises[of plain_float "[44, 37]"]
      parse_num_never_raises[of plain_float "[97, 98, 99]"] unparsed
    by (simp add: clean_num_examples)
qed

section \<open>Results about the text normalizer\<close>

lemma is_space_32 [simp]: "is_space 32"
  by (simp add: is_space_def)

lemma rstrip_Nil [simp]: "rstrip [] = []"
  by (simp add: rstrip_def)

lemma rstrip_Cons:
  "rstrip (c # cs) = (if is_space c \<and> rstrip cs = [] then [] else c # rstrip cs)"
  by (auto simp: rstrip_def dropWhile_append split: if_splits)

lemma split_ws_space: "is_space c \<Longrightarrow> split_ws (c # cs) = split_ws cs"
  by simp

lemma split_ws_single: "\<not> is_space c \<Longrightarrow> split_ws [c] = [[c]]"
  by simp

lemma split_ws_word_end:
  "\<not> is_space c \<Longrightarrow> is_space d \<Longrightarrow> split_ws (c # d # ds) = [c] # split_ws (d # ds)"
  by simp

lemma split_ws_word_cont:
  "\<not> is_space c \<Longrightarrow> \<not> is_space d \<Longrightarrow>
   split_ws (c # d # ds) = (case split_ws (d # ds) of w # ws \<Rightarrow> (c # w) # ws | [] \<Rightarrow> [[c]])"
  by simp

declare split_ws.simps(2) [simp del]

lemma split_ws_words_nonempty: "[] \<notin> set (split_ws s)"
proof (induction s)
  case Nil
  show ?case by simp
next
  case (Cons c cs)
  show ?case
  proof (cases "is_space c")
    case True
    then show ?thesis using Cons.IH by (simp add: split_ws_space)
  next
    case nc: False
    show ?thesis
    proof (cases cs)
      case Nil
      then show ?thesis using nc by (simp add: split_ws_single)
    next
      case (Cons d ds)
      show ?thesis
      proof (cases "is_space d")
        case True
        have "split_ws (c # cs) = [c] # split_ws cs"
          unfolding Cons by (rule split_ws_word_end[OF nc True])
        then show ?thesis using Cons.IH by simp
      next
        case False
        have eq: "split_ws (c # cs) = (case split_ws cs of w # ws \<Rightarrow> (c # w) # ws | [] \<Rightarrow> [[c]])"
          unfolding Cons by (rule split_ws_word_cont[OF nc False])
        show ?thesis unfolding eq using Cons.IH by (cases "split_ws cs") simp_all
      qed
    qed
  qed
qed

lemma join_sp_Nil_iff: "[] \<notin> set ws \<Longrightarrow> join_sp ws = [] \<longleftrightarrow> ws = []"
  by (induction ws rule: join_sp.induct) simp_all

lemma join_split_Nil_iff: "join_sp (split_ws s) = [] \<longleftrightarrow> split_ws s = []"
  by (rule join_sp_Nil_iff[OF split_ws_words_nonempty])

lemma join_sp_Cons_Cons: "join_sp ((c # w) # ws) = c # join_sp (w # ws)"
  by (cases ws) auto

lemma collapse_nonspace: "\<not> is_space c \<Longrightarrow> collapse_ws (c # cs) = c # collapse_ws cs"
  by (cases cs) auto

lemma lstrip_collapse_space: "is_space c \<Longrightarrow> lstrip (collapse_ws (c # cs)) = lstrip (collapse_ws cs)"
  by (cases cs) (auto simp: lstrip_def)

lemma strip_collapse_space: "is_space c \<Longrightarrow> strip (collapse_ws (c # cs)) = strip (collapse_ws cs)"
  by (simp add: strip_def lstrip_collapse_space)

lemma lstrip_nonspace: "\<not> is_space c \<Longrightarrow> lstrip (c # cs) = c # cs"
  by (simp add: lstrip_def)

lemma strip_nonspace: "\<not> is_space c \<Longrightarrow> strip (c # xs) = c # rstrip xs"
  by (simp add: strip_def lstrip_nonspace rstrip_Cons)

lemma strip_Nil [simp]: "strip [] = []"
  by (simp add: strip_def lstrip_def)

lemma rstrip_collapse_space:
  "is_space c \<Longrightarrow> rstrip (collapse_ws (c # cs)) =
     (if strip (collapse_ws cs) = [] then [] else 32 # strip (collapse_ws cs))"
proof (induction cs arbitrary: c)
  case Nil
  then show ?case by (simp add: rstrip_Cons strip_def lstrip_def)
next
  case (Cons d ds)
  show ?case
  proof (cases "is_space d")
    case True
    then show ?thesis using Cons by (simp add: strip_collapse_space)
  next
    case False
    then show ?thesis using Cons.prems
      by (simp add: strip_nonspace collapse_nonspace collapse_nonspace rstrip_Cons)
  qed
qed

lemma rstrip_collapse_space':
  assumes "is_space d"
  shows "rstrip (collapse_ws (d # ds)) =
     (if strip (collapse_ws (d # ds)) = [] then [] else 32 # strip (collapse_ws (d # ds)))"
  unfolding strip_collapse_space[OF assms] by (rule rstrip_collapse_space[OF assms])

lemma join_split_collapse: "join_sp (split_ws s) = strip (collapse_ws s)"
proof (induction s rule: split_ws.induct)
  case 1
  show ?case by simp
next
  case (2 c cs)
  show ?case
  proof (cases "is_space c")
    case True
    then have "join_sp (split_ws cs) = strip (collapse_ws cs)" using 2 by blast
    moreover have "split_ws (c # cs) = split_ws cs" by (rule split_ws_space[OF True])
    ultimately show ?thesis using strip_collapse_space[OF True, of cs] by argo
  next
    case nc: False
    have rhs: "strip (collapse_ws (c # cs)) = c # rstrip (collapse_ws cs)"
      unfolding collapse_nonspace[OF nc] by (rule strip_nonspace[OF nc])
    show ?thesis
    proof (cases cs)
      case Nil
      have "split_ws (c # cs) = [[c]]" unfolding Nil by (rule split_ws_single[OF nc])
      moreover have "rstrip (collapse_ws cs) = []" unfolding Nil by simp
      ultimately show ?thesis using rhs by simp
    next
      case (Cons d ds)
      show ?thesis
      proof (cases "is_space d")
        case True
        have ih: "join_sp (split_ws cs) = strip (collapse_ws cs)"
          using "2.IH"(2)[OF nc Cons True] .
        have lhs: "split_ws (c # cs) = [c] # split_ws cs"
          unfolding Cons by (rule split_ws_word_end[OF nc True])
        have r: "rstrip (collapse_ws cs) =
           (if strip (collapse_ws cs) = [] then [] else 32 # strip (collapse_ws cs))"
          unfolding Cons by (rule rstrip_collapse_space'[OF True])
        show ?thesis
        proof (cases "split_ws cs")
          case Nil
          then have "strip (collapse_ws cs) = []" using ih by simp
          then show ?thesis unfolding lhs rhs r Nil by simp
        next
          case (Cons w ws)
          have ne: "strip (collapse_ws cs) \<noteq> []"
            using ih join_split_Nil_iff[of cs] Cons by simp
          have "join_sp ([c] # split_ws cs) = c # 32 # join_sp (split_ws cs)"
            unfolding Cons by simp
          then show ?thesis unfolding lhs rhs r ih using ne by simp
        qed
      next
        case False
        have ne: "split_ws cs \<noteq> []"
          unfolding Cons by (cases ds; cases "is_space (hd ds)")
            (simp_all add: split_ws_single split_ws_word_end split_ws_word_cont False split: list.splits)
        then obtain w ws where sw: "split_ws cs = w # ws" by (cases "split_ws cs") auto
        have ih: "join_sp (split_ws cs) = strip (collapse_ws cs)"
          using "2.IH"(3)[OF nc Cons False] .
        have lhs: "split_ws (c # cs) = (c # w) # ws"
          unfolding Cons split_ws_word_cont[OF nc False] sw[unfolded Cons] by simp
        have "strip (collapse_ws cs) = rstrip (collapse_ws cs)"
          unfolding Cons collapse_nonspace[OF False] by (simp add: strip_nonspace[OF False] rstrip_Cons False)
        then have "rstrip (collapse_ws cs) = join_sp (w # ws)" using ih sw by simp
        then show ?thesis unfolding lhs rhs join_sp_Cons_Cons by simp
      qed
    qed
  qed
qed


lemma lstrip_Cons: "lstrip (c # cs) = (if is_space c then lstrip cs else c # cs)"
  by (simp add: lstrip_def)

lemma split_ws_lstrip: "split_ws (lstrip s) = split_ws s"
  by (induction s) (simp_all add: lstrip_Cons split_ws_space lstrip_def)

lemma rstrip_Nil_split: "rstrip s = [] \<Longrightarrow> split_ws s = []"
  by (induction s) (simp_all add: rstrip_Cons split_ws_space split: if_splits)

lemma split_ws_rstrip: "split_ws (rstrip s) = split_ws s"
proof (induction s)
  case Nil
  show ?case by simp
next
  case (Cons c cs)
  note IH = Cons.IH
  show ?case
  proof (cases "is_space c")
    case True
    then show ?thesis using Cons.IH rstrip_Nil_split[of cs]
      by (simp add: rstrip_Cons split_ws_space)
  next
    case nc: False
    have r: "rstrip (c # cs) = c # rstrip cs" using nc by (simp add: rstrip_Cons)
    show ?thesis
    proof (cases cs)
      case Nil
      then show ?thesis unfolding r by simp
    next
      case (Cons d ds)
      show ?thesis
      proof (cases "rstrip cs = []")
        case True
        have "split_ws cs = []" by (rule rstrip_Nil_split[OF True])
        moreover have "is_space d" using True unfolding Cons by (simp add: rstrip_Cons split: if_splits)
        ultimately have "split_ws (c # cs) = [[c]]"
          unfolding Cons using split_ws_word_end[OF nc, of d ds] by simp
        then show ?thesis unfolding r True using split_ws_single[OF nc] by simp
      next
        case False
        then have rc: "rstrip cs = d # rstrip ds" unfolding Cons by (simp add: rstrip_Cons split: if_splits)
        have ih: "split_ws (d # rstrip ds) = split_ws cs"
          using IH rc by simp
        have l: "rstrip (c # cs) = c # d # rstrip ds"
          using r rc by simp
        show ?thesis
        proof (cases "is_space d")
          case True
          have "split_ws (c # d # rstrip ds) = [c] # split_ws (d # rstrip ds)"
            by (rule split_ws_word_end[OF nc True])
          moreover have "split_ws (c # cs) = [c] # split_ws cs"
            unfolding Cons by (rule split_ws_word_end[OF nc True])
          ultimately show ?thesis using l ih by simp
        next
          case nd: False
          have "split_ws (c # d # rstrip ds) =
              (case split_ws (d # rstrip ds) of w # ws \<Rightarrow> (c # w) # ws | [] \<Rightarrow> [[c]])"
            by (rule split_ws_word_cont[OF nc nd])
          moreover have "split_ws (c # cs) =
              (case split_ws cs of w # ws \<Rightarrow> (c # w) # ws | [] \<Rightarrow> [[c]])"
            unfolding Cons by (rule split_ws_word_cont[OF nc nd])
          ultimately show ?thesis using l ih by simp
        qed
      qed
    qed
  qed
qed

lemma split_ws_strip: "split_ws (strip s) = split_ws s"
  by (simp add: strip_def split_ws_rstrip split_ws_lstrip)

lemma strip_map:
  assumes "\<And>c. is_space (f c) = is_space c"
  shows "strip (map f s) = map f (strip s)"
proof -
  have "is_space \<circ> f = is_space" using assms by (simp add: fun_eq_iff)
  then show ?thesis
    by (simp add: strip_def lstrip_def rstrip_def dropWhile_map rev_map)
qed

lemma is_space_10 [simp]: "is_space 10" and is_space_13 [simp]: "is_space 13"
  by (simp_all add: is_space_def)

lemma strip_replace_nl:
  "strip (replace_chr 13 32 (replace_chr 10 32 s)) = replace_chr 13 32 (replace_chr 10 32 (strip s))"
proof -
  have "replace_chr 13 32 (replace_chr 10 32 s) = map (\<lambda>c. if c = 10 \<or> c = 13 then 32 else c) s" for s
    by (simp add: replace_chr_def)
  moreover have "is_space (if c = 10 \<or> c = 13 then 32 else c) = is_space c" for c
    by auto
  ultimately show ?thesis using strip_map[of "\<lambda>c. if c = 10 \<or> c = 13 then 32 else c" s] by simp
qed

lemma code_normalize_eq:
  "join_sp (split_ws (replace_chr 13 32 (replace_chr 10 32 (strip s)))) = spec_normalize s"
proof -
  have "split_ws (replace_chr 13 32 (replace_chr 10 32 (strip s)))
      = split_ws (replace_chr 13 32 (replace_chr 10 32 s))"
    unfolding strip_replace_nl[symmetric] by (rule split_ws_strip)
  then show ?thesis by (simp add: spec_normalize_def join_split_collapse)
qed

lemma list_ex_reversed: "list_ex (\<lambda>p. py_in p t) reversed_patterns = has_reversed_fragment t"
  by (simp add: has_reversed_fragment_def list_ex_iff)

text \<open>
  C6. For every string, \<^verbatim>\<open>fix_hebrew\<close> first normalizes the text (newlines and carriage
  returns to spaces, every run of whitespace to one space, ends trimmed); if the
  normalized text contains one of the reversed fragments the result is the normalized
  text with its characters in reverse order, and otherwise it is the normalized text
  itself.
\<close>

theorem fix_hebrew_normalize_then_reverse:
  "fix_hebrew s =
     (if has_reversed_fragment (spec_normalize s) then rev (spec_normalize s)
      else spec_normalize s)"
proof (cases "s = []")
  case True
  have "spec_normalize [] = []" by (simp add: spec_normalize_def replace_chr_def)
  moreover have "\<not> has_reversed_fragment []"
    by (simp add: has_reversed_fragment_def reversed_patterns_def)
  ultimately show ?thesis using True by (simp add: fix_hebrew_def)
next
  case False
  then show ?thesis
    by (simp add: fix_hebrew_def Let_def code_normalize_eq list_ex_reversed)
qed

theorem fix_hebrew_normalize_then_reverse_witness:
  "has_reversed_fragment (spec_normalize [32, 1489, 1500, 1513, 10, 9, 49, 32]) \<and>
   fix_hebrew [32, 1489, 1500, 1513, 10, 9, 49, 32] = [49, 32, 1513, 1500, 1489] \<and>
   \<not> has_reversed_fragment (spec_normalize [32, 1513, 1500, 1489, 10, 9, 49, 32]) \<and>
   fix_hebrew [32, 1513, 1500, 1489, 10, 9, 49, 32] = [1513, 1500, 1489, 32, 49]"
proof -
  have n1: "spec_normalize [32, 1489, 1500, 1513, 10, 9, 49, 32] = [1489, 1500, 1513, 32, 49]"
    by (simp add: spec_normalize_def replace_chr_def strip_def lstrip_def rstrip_def is_space_def)
  have n2: "spec_normalize [32, 1513, 1500, 1489, 10, 9, 49, 32] = [1513, 1500, 1489, 32, 49]"
    by (simp add: spec_normalize_def replace_chr_def strip_def lstrip_def rstrip_def is_space_def)
  have r1: "has_reversed_fragment [1489, 1500, 1513, 32, 49]"
    by (simp add: has_reversed_fragment_def reversed_patterns_def)
  have r2: "\<not> has_reversed_fragment [1513, 1500, 1489, 32, 49]"
    by (simp add: has_reversed_fragment_def reversed_patterns_def)
  show ?thesis
    using fix_hebrew_normalize_then_reverse[of "[32, 1489, 1500, 1513, 10, 9, 49, 32]"]
      fix_hebrew_normalize_then_reverse[of "[32, 1513, 1500, 1489, 10, 9, 49, 32]"]
    by (simp add: n1 n2 r1 r2)
qed

section \<open>Results about the table scan\<close>

lemma scan_rows_eq:
  "scan_rows pf hs rs ps = ps @ map (build_phase pf hs) (filter (\<lambda>r. \<not> skip_row r) rs)"
  by (induction rs arbitrary: ps) simp_all

lemma milestone_nonempty: "is_milestone_table t \<Longrightarrow> t = hd t # tl t"
  by (cases t) (simp_all add: is_milestone_table_def)

lemma scan_tables_step:
  "is_milestone_table t \<Longrightarrow>
   scan_tables pf (t # ts) d =
     scan_tables pf ts
       (d\<lparr>headers := build_headers (hd t),
          phases := phases d @
            map (build_phase pf (build_headers (hd t))) (filter (\<lambda>r. \<not> skip_row r) (tl t))\<rparr>)"
  by (cases t) (simp_all add: is_milestone_table_def scan_rows_eq Let_def)

lemma scan_tables_skip:
  "\<not> is_milestone_table t \<Longrightarrow> scan_tables pf (t # ts) d = scan_tables pf ts d"
  by simp

lemma scan_tables_phases:
  "phases (scan_tables pf ts d) =
     phases d @
     concat (map (\<lambda>t. map (build_phase pf (build_headers (hd t)))
                         (filter (\<lambda>r. \<not> skip_row r) (tl t)))
               (filter is_milestone_table ts))"
proof (induction ts arbitrary: d)
  case Nil
  show ?case by simp
next
  case (Cons t ts)
  show ?case
  proof (cases "is_milestone_table t")
    case True
    show ?thesis unfolding scan_tables_step[OF True] Cons.IH using True by simp
  next
    case False
    show ?thesis unfolding scan_tables_skip[OF False] Cons.IH using False by simp
  qed
qed

lemma scan_tables_headers:
  "headers (scan_tables pf ts d) =
     (case filter is_milestone_table ts of
        [] \<Rightarrow> headers d
      | q # qs \<Rightarrow> build_headers (hd (last (q # qs))))"
proof (induction ts arbitrary: d)
  case Nil
  show ?case by simp
next
  case (Cons t ts)
  show ?case
  proof (cases "is_milestone_table t")
    case True
    show ?thesis unfolding scan_tables_step[OF True] Cons.IH using True
      by (simp split: list.splits)
  next
    case False
    show ?thesis unfolding scan_tables_skip[OF False] Cons.IH using False by simp
  qed
qed

lemma scan_tables_totals:
  "contract_total (scan_tables pf ts d) = contract_total d \<and>
   billed_total (scan_tables pf ts d) = billed_total d"
proof (induction ts arbitrary: d)
  case Nil
  show ?case by simp
next
  case (Cons t ts)
  show ?case
  proof (cases "is_milestone_table t")
    case True
    show ?thesis unfolding scan_tables_step[OF True] using Cons.IH by simp
  next
    case False
    show ?thesis unfolding scan_tables_skip[OF False] using Cons.IH by simp
  qed
qed

lemma compute_totals_keeps:
  "phases (compute_totals d) = phases d \<and> headers (compute_totals d) = headers d"
  by (simp add: compute_totals_def split: prod.splits)

lemma extract_phases:
  "phases (extract_pdf pf pdf) =
     concat (map (\<lambda>t. map (build_phase pf (build_headers (hd t)))
                         (filter (\<lambda>r. \<not> skip_row r) (tl t)))
               (filter is_milestone_table (all_tables pdf)))"
  by (simp add: extract_pdf_def compute_totals_keeps scan_tables_phases init_data_def)

lemma extract_headers:
  "headers (extract_pdf pf pdf) =
     (case filter is_milestone_table (all_tables pdf) of
        [] \<Rightarrow> []
      | q # qs \<Rightarrow> build_headers (hd (last (q # qs))))"
  by (simp add: extract_pdf_def compute_totals_keeps scan_tables_headers init_data_def
      split: list.splits)

lemma scan_tables_none:
  "\<forall>t \<in> set ts. \<not> is_milestone_table t \<Longrightarrow> scan_tables pf ts d = d"
  by (induction ts) simp_all

section \<open>Evaluating the examples\<close>

lemmas eval_str = strip_def lstrip_def rstrip_def is_space_def replace_chr_def remove_chr_def
  split_ws.simps(2) cell_truthy_def cell_str_def

lemmas eval_cell = cell_value_def raw_value_def parse_num_def clean_num_def plain_float_def
  is_digit_def digits_val_def fix_hebrew_def reversed_patterns_def Let_def

lemmas eval_phase = build_phase_def col_name_def dict_get_def stage_col_def stage_key_def

lemma cell_examples:
  "cell_value plain_float (Some [120]) = Text [120]"
  "cell_value plain_float (Some [121]) = Text [121]"
  "cell_value plain_float None = Text []"
  "cell_value plain_float (Some [48]) = Num 0"
  "cell_value plain_float (Some [49, 44, 48, 48, 48]) = Num 1000"
  "cell_value plain_float (Some [97, 98, 99]) = Text [97, 98, 99]"
  by (simp_all add: eval_str eval_cell)

lemma phase_example:
  "build_phase plain_float [[1513, 1500, 1489], [97], [98], [99]] [Some [120], None, None, None]
   = [([1513, 1500, 1489], Text [120]), ([97], Text []), ([98], Text []), ([99], Text []),
      (stage_key, Text [])]"
  by (simp add: eval_phase cell_examples)

lemma phase_example_b:
  "build_phase plain_float [[1513, 1500, 1489], [100], [101], [102]] [Some [121], None, None, None]
   = [([1513, 1500, 1489], Text [121]), ([100], Text []), ([101], Text []), ([102], Text []),
      (stage_key, Text [])]"
  by (simp add: eval_phase cell_examples)

lemma table_plain_not_milestone: "\<not> is_milestone_table table_plain"
  by (simp add: is_milestone_table_def table_plain_def row_text_def cell_truthy_def
      cell_str_def stage_marker_def stage_marker_rev_def)

lemma table_a_milestone: "is_milestone_table table_a"
  by (simp add: is_milestone_table_def table_a_def row_text_def cell_truthy_def
      cell_str_def stage_marker_def stage_marker_rev_def)

lemma table_b_milestone: "is_milestone_table table_b"
  by (simp add: is_milestone_table_def table_b_def row_text_def cell_truthy_def
      cell_str_def stage_marker_def stage_marker_rev_def)

lemma fix_hebrew_short:
  "fix_hebrew [1513, 1500, 1489] = [1513, 1500, 1489]"
  "fix_hebrew [97] = [97]" "fix_hebrew [98] = [98]" "fix_hebrew [99] = [99]"
  "fix_hebrew [100] = [100]" "fix_hebrew [101] = [101]" "fix_hebrew [102] = [102]"
  by (simp_all add: fix_hebrew_def strip_def lstrip_def rstrip_def is_space_def replace_chr_def
      split_ws.simps(2) reversed_patterns_def Let_def)

lemma headers_a: "build_headers (hd table_a) = [[1513, 1500, 1489], [97], [98], [99]]"
  by (simp add: build_headers_def table_a_def enumerate_eq_zip cell_truthy_def cell_str_def
      fix_hebrew_short upt_rec)

lemma headers_b: "build_headers (hd table_b) = [[1513, 1500, 1489], [100], [101], [102]]"
  by (simp add: build_headers_def table_b_def enumerate_eq_zip cell_truthy_def cell_str_def
      fix_hebrew_short upt_rec)

lemma all_tables_two_page: "all_tables two_page_pdf = [table_a, table_plain, table_b]"
  by (simp add: all_tables_def two_page_pdf_def)

lemma row_kept: "\<not> skip_row [Some [121], None, None, None]" "\<not> skip_row [Some [120], None, None, None]"
  by (simp_all add: skip_row_def row_text_def cell_truthy_def cell_str_def skip_words_def)

lemma tl_tables: "tl table_a = [[Some [120], None, None, None]]" "tl table_b = [[Some [121], None, None, None]]"
  by (simp_all add: table_a_def table_b_def)

section \<open>No milestone table\<close>

text \<open>
  C9. When no table of the document passes the milestone test, \<^verbatim>\<open>extract\<close> raises nothing
  and returns the initial record: no phases, no headers, and both totals equal to 0.
\<close>

theorem extract_no_milestone_table:
  assumes "\<forall>t \<in> set (all_tables pdf). \<not> is_milestone_table t"
  shows "extract_pdf pf pdf =
           \<lparr>contract_total = Num 0, billed_total = 0, phases = [], headers = []\<rparr>"
  by (simp add: extract_pdf_def scan_tables_none[OF assms] compute_totals_def init_data_def)

theorem extract_no_milestone_table_witness:
  "\<not> is_milestone_table table_plain \<and>
   extract_pdf plain_float plain_pdf =
     \<lparr>contract_total = Num 0, billed_total = 0, phases = [], headers = []\<rparr>"
proof -
  have "\<forall>t \<in> set (all_tables plain_pdf). \<not> is_milestone_table t"
    by (simp add: all_tables_def plain_pdf_def table_plain_not_milestone)
  from extract_no_milestone_table[OF this, of plain_float] show ?thesis
    by (simp add: table_plain_not_milestone)
qed

section \<open>Several milestone tables\<close>

text \<open>
  C1 at \<open>two_page_pdf\<close>, where two tables pass the milestone test: the claim has the
  first of them alone decide the result. The loop goes on after it: the headers it leaves
  are those of the second table, not of the first, and the phases hold the row of the
  first table, built against the first table's headers, followed by the row of the
  second.
\<close>

theorem two_milestone_tables_both_read:
  "is_milestone_table table_a \<and> is_milestone_table table_b \<and>
   all_tables two_page_pdf = [table_a, table_plain, table_b] \<and>
   build_headers (hd table_a) = [[1513, 1500, 1489], [97], [98], [99]] \<and>
   headers (extract_pdf plain_float two_page_pdf) = [[1513, 1500, 1489], [100], [101], [102]] \<and>
   headers (extract_pdf plain_float two_page_pdf) \<noteq> build_headers (hd table_a) \<and>
   phases (extract_pdf plain_float two_page_pdf) =
     [[([1513, 1500, 1489], Text [120]), ([97], Text []), ([98], Text []), ([99], Text []),
       ([95, 115, 116, 97, 103, 101], Text [])],
      [([1513, 1500, 1489], Text [121]), ([100], Text []), ([101], Text []), ([102], Text []),
       ([95, 115, 116, 97, 103, 101], Text [])]]"
  by (simp add: extract_phases extract_headers all_tables_two_page table_a_milestone
      table_b_milestone table_plain_not_milestone headers_a headers_b row_kept tl_tables
      phase_example phase_example_b stage_key_def)

section \<open>The column selection\<close>

lemma pick_columns_eq:
  "pick_columns hs (cc, bc) =
     ((case filter is_contract_header hs of [] \<Rightarrow> cc | x # xs \<Rightarrow> Some (last (x # xs))),
      (case filter is_billed_header hs of [] \<Rightarrow> bc | x # xs \<Rightarrow> Some (last (x # xs))))"
  by (induction hs arbitrary: cc bc) (simp_all split: list.splits)

lemma py_in_Nil: "py_in p [] = (p = [])"
  by simp

lemma is_billed_header_nonempty: "is_billed_header h \<Longrightarrow> h \<noteq> []"
  by (auto simp: is_billed_header_def tok_this_invoice_def tok_on_invoice_def)

lemma is_contract_header_nonempty: "is_contract_header h \<Longrightarrow> h \<noteq> []"
  by (auto simp: is_contract_header_def tok_amount_def)

lemma last_filter_holds: "filter P xs = y # ys \<Longrightarrow> P (last (y # ys))"
proof -
  assume f: "filter P xs = y # ys"
  have "last (y # ys) \<in> set (y # ys)" by (rule last_in_set) simp
  then have "last (y # ys) \<in> set (filter P xs)" using f by simp
  then show ?thesis by simp
qed

lemma amount_header_tests:
  "is_contract_header [1505, 1499, 1493, 1501]"
  "is_contract_header [1505, 1499, 1493, 1501, 50]"
  "\<not> is_contract_header [1489, 1495, 1513, 1489, 1493, 1503]"
  "\<not> is_contract_header [1489, 1495, 1513, 1489, 1493, 1503, 50]"
  "\<not> is_billed_header [1505, 1499, 1493, 1501]"
  "\<not> is_billed_header [1505, 1499, 1493, 1501, 50]"
  "is_billed_header [1489, 1495, 1513, 1489, 1493, 1503]"
  "is_billed_header [1489, 1495, 1513, 1489, 1493, 1503, 50]"
  "\<not> is_contract_header [120]" "\<not> is_billed_header [120]"
  by (simp_all add: is_contract_header_def is_billed_header_def tok_amount_def tok_account_def
      tok_cumulative_def tok_this_invoice_def tok_on_invoice_def)

text \<open>
  C2 as stated fails: of two headers that pass the contract-amount test the second is
  selected, not the first, and likewise for the billed test.
\<close>

theorem first_matching_header_counterexample:
  "is_contract_header (amount_headers ! 0) \<and>
   fst (select_columns amount_headers) = Some (amount_headers ! 1) \<and>
   fst (select_columns amount_headers) \<noteq> Some (amount_headers ! 0) \<and>
   \<not> is_billed_header (amount_headers ! 0) \<and> \<not> is_billed_header (amount_headers ! 1) \<and>
   is_billed_header (amount_headers ! 2) \<and>
   snd (select_columns amount_headers) = Some (amount_headers ! 3) \<and>
   snd (select_columns amount_headers) \<noteq> Some (amount_headers ! 2)"
  by (simp add: amount_headers_def select_columns_def amount_header_tests col_truthy_def)

text \<open>
  C2, amended. For a non-empty list of headers the contract-amount column is the LAST
  header that contains the amount token and neither the account nor the cumulative
  token (none if there is no such header), and the billed column is the LAST header
  that contains one of the two invoice tokens; when no header passes the billed test,
  the billed column is the first header of the list.
\<close>

theorem select_columns_last_match:
  assumes "hs \<noteq> []"
  shows "select_columns hs =
     ((case filter is_contract_header hs of [] \<Rightarrow> None | x # xs \<Rightarrow> Some (last (x # xs))),
      (case filter is_billed_header hs of [] \<Rightarrow> Some (hd hs) | x # xs \<Rightarrow> Some (last (x # xs))))"
proof (cases "filter is_billed_header hs")
  case Nil
  then show ?thesis using assms
    by (simp add: select_columns_def pick_columns_eq col_truthy_def)
next
  case (Cons y ys)
  have "is_billed_header (last (y # ys))" using last_filter_holds[OF Cons] .
  then have "last (y # ys) \<noteq> []" by (rule is_billed_header_nonempty)
  then show ?thesis using Cons
    by (simp add: select_columns_def pick_columns_eq col_truthy_def)
qed

theorem select_columns_last_match_witness:
  "amount_headers \<noteq> [] \<and>
   select_columns amount_headers =
     (Some [1505, 1499, 1493, 1501, 50], Some [1489, 1495, 1513, 1489, 1493, 1503, 50]) \<and>
   select_columns [[120], [1505, 1499, 1493, 1501]] = (Some [1505, 1499, 1493, 1501], Some [120])"
proof -
  have ne: "amount_headers \<noteq> []" by (simp add: amount_headers_def)
  have ne2: "[[120], [1505, 1499, 1493, 1501::nat]] \<noteq> []" by simp
  show ?thesis
    using select_columns_last_match[OF ne] select_columns_last_match[OF ne2]
    by (simp add: amount_headers_def amount_header_tests)
qed

section \<open>The contract total\<close>

lemma sum_phases_step:
  fixes ps :: "'f::{zero,plus} phase list"
  assumes "c \<noteq> []"
  shows "fst (sum_phases (Some c) bc (p # ps) (ct, bt)) =
     fst (sum_phases (Some c) bc ps
            (if holds_truthy c p then (case dict_get p c of None \<Rightarrow> ct | Some v \<Rightarrow> v) else ct, bt))"
proof -
  have "fst (sum_phases (Some c) bc ps (x, b1)) = fst (sum_phases (Some c) bc ps (x, b2))"
    for x b1 b2
    by (induction ps arbitrary: x b1 b2) (simp_all add: Let_def)
  then show ?thesis using assms
    by (auto simp: Let_def holds_truthy_def split: option.splits)
qed

lemma sum_phases_none_truthy:
  fixes ps :: "'f::{zero,plus} phase list"
  assumes "c \<noteq> []" "filter (holds_truthy c) ps = []"
  shows "fst (sum_phases (Some c) bc ps (ct, bt)) = ct"
  using assms(2)
proof (induction ps)
  case Nil
  show ?case by simp
next
  case (Cons p ps)
  then have "\<not> holds_truthy c p" "filter (holds_truthy c) ps = []"
    by (auto split: if_splits)
  then show ?case unfolding sum_phases_step[OF assms(1)] using Cons.IH by simp
qed

lemma sum_phases_last_truthy:
  fixes ps :: "'f::{zero,plus} phase list"
  assumes "c \<noteq> []" "filter (holds_truthy c) ps \<noteq> []"
  shows "dict_get (last (filter (holds_truthy c) ps)) c =
           Some (fst (sum_phases (Some c) bc ps (ct, bt)))"
  using assms(2)
proof (induction ps arbitrary: ct)
  case Nil
  then show ?case by simp
next
  case (Cons p ps)
  show ?case
  proof (cases "filter (holds_truthy c) ps = []")
    case True
    then have h: "holds_truthy c p" using Cons.prems by (auto split: if_splits)
    then obtain v where v: "dict_get p c = Some v"
      by (auto simp: holds_truthy_def split: option.splits)
    show ?thesis unfolding sum_phases_step[OF assms(1)] using True h v
      by (simp add: sum_phases_none_truthy[OF assms(1) True])
  next
    case False
    then show ?thesis unfolding sum_phases_step[OF assms(1)] using Cons.IH
      by simp
  qed
qed

lemma sum_phases_no_column:
  "fst (sum_phases None bc ps (ct, bt)) = ct"
  by (induction ps arbitrary: ct bt) (simp_all add: Let_def)

lemma select_columns_contract_nonempty:
  "fst (select_columns hs) = Some c \<Longrightarrow> c \<noteq> []"
proof -
  assume a: "fst (select_columns hs) = Some c"
  then have "filter is_contract_header hs \<noteq> []"
    by (auto simp: select_columns_def pick_columns_eq split: list.splits prod.splits)
  then obtain y ys where f: "filter is_contract_header hs = y # ys"
    by (cases "filter is_contract_header hs") auto
  then have "c = last (y # ys)" using a
    by (simp add: select_columns_def pick_columns_eq)
  then show ?thesis using last_filter_holds[OF f] is_contract_header_nonempty[of c] by simp
qed

text \<open>
  C3. With the contract-amount column that the selection gives, the contract total
  after the loop over the phases is the value, under that column, of the last phase
  whose value there is present and true: each such phase overwrites the total. When no
  phase has such a value, or no column was selected, the total keeps the value it had,
  which is 0 after the table scan.
\<close>

theorem contract_total_last_write_wins:
  "(case fst (select_columns (headers d)) of
      None \<Rightarrow> contract_total (compute_totals d) = contract_total d
    | Some c \<Rightarrow>
        (filter (holds_truthy c) (phases d) = [] \<longrightarrow>
           contract_total (compute_totals d) = contract_total d) \<and>
        (filter (holds_truthy c) (phases d) \<noteq> [] \<longrightarrow>
           dict_get (last (filter (holds_truthy c) (phases d))) c =
             Some (contract_total (compute_totals d)))) \<and>
   contract_total (scan_tables pf (all_tables pdf) init_data) = Num 0"
proof -
  have init: "contract_total (scan_tables pf (all_tables pdf) init_data) = Num 0"
    by (simp add: scan_tables_totals init_data_def)
  obtain cc bc where sel: "select_columns (headers d) = (cc, bc)"
    by (cases "select_columns (headers d)") auto
  have ct: "contract_total (compute_totals d) =
      (if phases d = [] then contract_total d
       else fst (sum_phases cc bc (phases d) (contract_total d, billed_total d)))"
    by (simp add: compute_totals_def sel split: prod.splits)
  show ?thesis
  proof (cases cc)
    case None
    then show ?thesis using sel ct init by (simp add: sum_phases_no_column)
  next
    case (Some c)
    then have ne: "c \<noteq> []" using select_columns_contract_nonempty[of "headers d" c] sel by simp
    have a: "filter (holds_truthy c) (phases d) = [] \<Longrightarrow>
        contract_total (compute_totals d) = contract_total d"
      using ct Some sum_phases_none_truthy[OF ne, of "phases d" bc] by simp
    have b: "filter (holds_truthy c) (phases d) \<noteq> [] \<Longrightarrow>
        dict_get (last (filter (holds_truthy c) (phases d))) c =
          Some (contract_total (compute_totals d))"
    proof -
      assume f: "filter (holds_truthy c) (phases d) \<noteq> []"
      then have "phases d \<noteq> []" by auto
      then show ?thesis using ct Some sum_phases_last_truthy[OF ne f, of bc] by simp
    qed
    show ?thesis using sel Some a b init by simp
  qed
qed

theorem contract_total_last_write_wins_witness:
  "fst (select_columns (headers two_phase_data)) = Some [1505, 1499, 1493, 1501] \<and>
   filter (holds_truthy [1505, 1499, 1493, 1501]) (phases two_phase_data) \<noteq> [] \<and>
   contract_total (compute_totals two_phase_data) = Num 1000"
proof -
  have sel: "fst (select_columns (headers two_phase_data)) = Some [1505, 1499, 1493, 1501]"
    by (simp add: two_phase_data_def select_columns_def amount_header_tests col_truthy_def)
  have fil: "filter (holds_truthy [1505, 1499, 1493, 1501]) (phases two_phase_data) =
      [[([1505, 1499, 1493, 1501], Num 2000), ([120], Text [97])],
       [([1505, 1499, 1493, 1501], Num 1000), ([120], Text [])]]"
    by (simp add: two_phase_data_def holds_truthy_def dict_get_def)
  show ?thesis
    using contract_total_last_write_wins[of two_phase_data plain_float "[]"]
    by (simp add: sel fil dict_get_def)
qed

section \<open>Phases as dictionaries\<close>

lemma keys_Nil: "keys [] = {}"
  by (simp add: keys_def)

lemma keys_dict_set: "keys (dict_set k v d) = insert k (keys d)"
  by (induction d) (force simp: keys_def)+

lemma dict_get_dict_set:
  "dict_get (dict_set k v d) k' = (if k' = k then Some v else dict_get d k')"
  by (induction d) (auto simp: dict_get_def)

lemma dict_get_None_iff: "dict_get d k = None \<longleftrightarrow> k \<notin> keys d"
  by (simp add: dict_get_def keys_def map_of_eq_None_iff)

lemma keys_fill_phase:
  "keys (fill_phase pf hs i r ph) = keys ph \<union> col_name hs ` {i ..< i + length r}"
proof (induction r arbitrary: i ph)
  case Nil
  show ?case by simp
next
  case (Cons c cs)
  have "{i ..< i + length (c # cs)} = insert i {Suc i ..< Suc i + length cs}"
    by auto
  then show ?case by (simp add: Cons.IH keys_dict_set)
qed

lemma keys_build_phase:
  "keys (build_phase pf hs r) = col_name hs ` {..<length r} \<union> {stage_key}"
  by (simp add: build_phase_def Let_def keys_dict_set keys_fill_phase keys_Nil lessThan_atLeast0)

lemma length_build_headers: "length (build_headers h) = length h"
  by (simp add: build_headers_def)

lemma col_name_image_full: "col_name hs ` {..<length hs} = set hs"
  by (auto simp: col_name_def set_conv_nth image_iff)

lemma col_name_image_short:
  assumes "n \<le> length hs"
  shows "col_name hs ` {..<n} = set (take n hs)"
proof -
  have "col_name hs ` {..<n} = nth hs ` {0..<n}"
    using assms by (intro image_cong) (auto simp: col_name_def)
  then show ?thesis using nth_image[OF assms] by simp
qed

lemma fill_phase_untouched:
  "(\<forall>j < length r. col_name hs (i + j) \<noteq> k) \<Longrightarrow>
   dict_get (fill_phase pf hs i r ph) k = dict_get ph k"
proof (induction r arbitrary: i ph)
  case Nil
  show ?case by simp
next
  case (Cons c cs)
  have "\<forall>j < length cs. col_name hs (Suc i + j) \<noteq> k"
    using Cons.prems by (metis Suc_less_eq add_Suc_shift length_Cons)
  moreover have "col_name hs i \<noteq> k" using Cons.prems by force
  ultimately show ?case by (simp add: Cons.IH dict_get_dict_set)
qed

lemma fill_phase_stored:
  "n < length r \<Longrightarrow>
   (\<forall>j. n < j \<and> j < length r \<longrightarrow> col_name hs (i + j) \<noteq> col_name hs (i + n)) \<Longrightarrow>
   dict_get (fill_phase pf hs i r ph) (col_name hs (i + n)) = Some (cell_value pf (r ! n))"
proof (induction r arbitrary: i n ph)
  case Nil
  then show ?case by simp
next
  case (Cons c cs)
  show ?case
  proof (cases n)
    case 0
    have "\<forall>j < length cs. col_name hs (Suc i + j) \<noteq> col_name hs i"
      using Cons.prems(2) 0 by (metis add.right_neutral add_Suc_shift less_Suc_eq_0_disj
          length_Cons not_less_eq zero_less_Suc)
    then show ?thesis using 0
      by (simp add: fill_phase_untouched dict_get_dict_set)
  next
    case (Suc m)
    have "m < length cs" using Cons.prems(1) Suc by simp
    moreover have "\<forall>j. m < j \<and> j < length cs \<longrightarrow>
        col_name hs (Suc i + j) \<noteq> col_name hs (Suc i + m)"
      using Cons.prems(2) Suc by (metis Suc_less_eq add_Suc_shift length_Cons)
    ultimately show ?thesis using Cons.IH[of m "Suc i"] Suc by simp
  qed
qed

lemma fill_phase_take_stored:
  assumes "n < length r"
  shows "dict_get (fill_phase pf hs 0 (take (Suc n) r) ph) (col_name hs n) =
           Some (cell_value pf (r ! n))"
proof -
  have l: "n < length (take (Suc n) r)" using assms by simp
  have d: "\<forall>j. n < j \<and> j < length (take (Suc n) r) \<longrightarrow>
      col_name hs (0 + j) \<noteq> col_name hs (0 + n)"
    using assms by auto
  show ?thesis using fill_phase_stored[OF l d, of pf ph] by simp
qed

section \<open>The stage field\<close>

lemma stage_defined: "dict_get (build_phase pf hs r) stage_key \<noteq> None"
  by (simp add: build_phase_def Let_def dict_get_dict_set)

lemma table_dup_facts:
  "is_milestone_table table_dup"
  "build_headers (hd table_dup) = [[1513, 1500, 1489], [97], [98], [1513, 1500, 1489]]"
  "tl table_dup = [[Some [120]]]"
  "\<not> skip_row [Some [120]]"
  "all_tables dup_pdf = [table_dup]"
  by (simp_all add: is_milestone_table_def table_dup_def row_text_def cell_truthy_def
      cell_str_def stage_marker_def stage_marker_rev_def build_headers_def enumerate_eq_zip
      fix_hebrew_short upt_rec skip_row_def skip_words_def all_tables_def dup_pdf_def)

lemma phase_dup:
  "build_phase plain_float [[1513, 1500, 1489], [97], [98], [1513, 1500, 1489]] [Some [120]]
   = [([1513, 1500, 1489], Text [120]), (stage_key, Text [120])]"
  by (simp add: eval_phase cell_examples)

text \<open>
  C10 as stated fails: in \<open>dup_pdf\<close> the row has one cell under four headers, yet the last
  header bears the name of the first, so a value is found under it and \<^verbatim>\<open>_stage\<close> is that
  cell's value, not the empty string.
\<close>

theorem stage_of_short_row_counterexample:
  "is_milestone_table table_dup \<and> \<not> skip_row [Some [120]] \<and>
   headers (extract_pdf plain_float dup_pdf) = [[1513, 1500, 1489], [97], [98], [1513, 1500, 1489]] \<and>
   length [Some [120::nat]] < length (headers (extract_pdf plain_float dup_pdf)) \<and>
   phases (extract_pdf plain_float dup_pdf) =
     [[([1513, 1500, 1489], Text [120]), ([95, 115, 116, 97, 103, 101], Text [120])]] \<and>
   dict_get (hd (phases (extract_pdf plain_float dup_pdf))) [95, 115, 116, 97, 103, 101]
     \<noteq> Some (Text [])"
  by (simp add: extract_phases extract_headers table_dup_facts phase_dup stage_key_def
      dict_get_def)

text \<open>
  C10, amended. \<^verbatim>\<open>_stage\<close> is defined on every phase. For a row with fewer cells than
  there are headers: when the name of the last header is not also the name of one of
  the headers at the row's cell positions, \<^verbatim>\<open>_stage\<close> is the empty string; when it is,
  \<^verbatim>\<open>_stage\<close> is the value stored under that name, which is the value of the last cell
  of the row whose header bears it.
\<close>

theorem stage_of_short_row:
  "dict_get (build_phase pf hs r) stage_key \<noteq> None \<and>
   (length r < length hs \<and> last hs \<notin> set (take (length r) hs) \<longrightarrow>
      dict_get (build_phase pf hs r) stage_key = Some (Text [])) \<and>
   (length r < length hs \<and> n < length r \<and> hs ! n = last hs \<and>
    (\<forall>j. n < j \<and> j < length r \<longrightarrow> hs ! j \<noteq> last hs) \<longrightarrow>
      dict_get (build_phase pf hs r) stage_key = Some (cell_value pf (r ! n)))"
proof -
  have empty: "dict_get (build_phase pf hs r) stage_key = Some (Text [])"
    if a: "length r < length hs" and b: "last hs \<notin> set (take (length r) hs)"
  proof -
    have ne: "hs \<noteq> []" using a by auto
    have "keys (fill_phase pf hs 0 r []) = set (take (length r) hs)"
      using col_name_image_short[of "length r" hs] a
      by (simp add: keys_fill_phase keys_Nil lessThan_atLeast0)
    then have "dict_get (fill_phase pf hs 0 r []) (last hs) = None"
      using b by (simp add: dict_get_None_iff)
    then show ?thesis using ne
      by (simp add: build_phase_def Let_def dict_get_dict_set stage_col_def)
  qed
  have stored: "dict_get (build_phase pf hs r) stage_key = Some (cell_value pf (r ! n))"
    if a: "length r < length hs" and n: "n < length r" and e: "hs ! n = last hs"
      and d: "\<forall>j. n < j \<and> j < length r \<longrightarrow> hs ! j \<noteq> last hs"
  proof -
    have ne: "hs \<noteq> []" using a by auto
    have c: "col_name hs j = hs ! j" if "j < length r" for j
      using that a by (simp add: col_name_def)
    have "\<forall>j. n < j \<and> j < length r \<longrightarrow> col_name hs (0 + j) \<noteq> col_name hs (0 + n)"
      using c n d e by simp
    from fill_phase_stored[OF n this, of pf "[]"]
    have "dict_get (fill_phase pf hs 0 r []) (last hs) = Some (cell_value pf (r ! n))"
      using c[OF n] e by simp
    then show ?thesis using ne
      by (simp add: build_phase_def Let_def dict_get_dict_set stage_col_def)
  qed
  show ?thesis using stage_defined[of pf hs r] empty stored by blast
qed

theorem stage_of_short_row_witness:
  "length [Some [122::nat]] < length [[1513, 1500, 1489], [97], [98], [99::nat]] \<and>
   last [[1513, 1500, 1489], [97], [98], [99::nat]]
     \<notin> set (take (length [Some [122::nat]]) [[1513, 1500, 1489], [97], [98], [99]]) \<and>
   dict_get (build_phase plain_float [[1513, 1500, 1489], [97], [98], [99]] [Some [122]]) stage_key
     = Some (Text []) \<and>
   length [Some [120::nat]] < length [[1513, 1500, 1489], [97], [98], [1513, 1500, 1489::nat]] \<and>
   [[1513, 1500, 1489], [97], [98], [1513, 1500, 1489::nat]] ! 0
     = last [[1513, 1500, 1489], [97], [98], [1513, 1500, 1489]] \<and>
   dict_get (build_phase plain_float [[1513, 1500, 1489], [97], [98], [1513, 1500, 1489]]
               [Some [120]]) stage_key
     = Some (Text [120])"
proof -
  have short: "dict_get (build_phase plain_float [[1513, 1500, 1489], [97], [98], [99]]
      [Some [122]]) stage_key = Some (Text [])"
    using stage_of_short_row[of plain_float "[[1513, 1500, 1489], [97], [98], [99]]"
        "[Some [122]]" 0]
    by simp
  have later: "\<forall>j. (0::nat) < j \<and> j < length [Some [120::nat]] \<longrightarrow>
      [[1513, 1500, 1489], [97], [98], [1513, 1500, 1489::nat]] ! j
        \<noteq> last [[1513, 1500, 1489], [97], [98], [1513, 1500, 1489]]"
    by auto
  have dup: "dict_get (build_phase plain_float [[1513, 1500, 1489], [97], [98], [1513, 1500, 1489]]
      [Some [120]]) stage_key = Some (cell_value plain_float ([Some [120]] ! 0))"
    using stage_of_short_row[of plain_float "[[1513, 1500, 1489], [97], [98], [1513, 1500, 1489]]"
        "[Some [120]]" 0] later
    by simp
  show ?thesis using short dup by (simp add: cell_examples)
qed

section \<open>The value stored for a cell\<close>

text \<open>
  C7. The value the loop stores for cell \<open>n\<close> of a row, under the name of column \<open>n\<close>,
  is the parsed number when the parse of the whitespace-normalized raw value is not
  zero or the trimmed raw value is one of the three zero literals, and the fixed text
  otherwise. That value is what the finished phase holds under the name, unless a later
  cell of the row has the same column name or the name is that of the stage field,
  which are assigned afterwards. A raw 0 is stored as the number 0 (given that \<^verbatim>\<open>float\<close>
  reads it as zero), and raw abc as the text abc (given that \<^verbatim>\<open>float\<close> raises on it).
\<close>

theorem stored_cell_value_rule:
  assumes "n < length r"
  shows
    "dict_get (fill_phase pf hs 0 (take (Suc n) r) []) (col_name hs n) =
       Some (if parse_num pf (Some (raw_value (r ! n))) \<noteq> 0 \<or>
                strip (raw_value (r ! n)) \<in> {[48], [48, 46, 48], [48, 46, 48, 48]}
             then Num (parse_num pf (Some (raw_value (r ! n))))
             else Text (fix_hebrew (raw_value (r ! n)))) \<and>
     ((\<forall>j. n < j \<and> j < length r \<longrightarrow> col_name hs j \<noteq> col_name hs n) \<and>
      col_name hs n \<noteq> stage_key \<longrightarrow>
        dict_get (build_phase pf hs r) (col_name hs n) =
          dict_get (fill_phase pf hs 0 (take (Suc n) r) []) (col_name hs n)) \<and>
     (pf [48] = Some 0 \<longrightarrow> cell_value pf (Some [48]) = Num 0) \<and>
     (pf [97, 98, 99] = None \<longrightarrow> cell_value pf (Some [97, 98, 99]) = Text [97, 98, 99])"
proof -
  have rule: "cell_value pf c =
      (if parse_num pf (Some (raw_value c)) \<noteq> 0 \<or>
          strip (raw_value c) \<in> {[48], [48, 46, 48], [48, 46, 48, 48]}
       then Num (parse_num pf (Some (raw_value c)))
       else Text (fix_hebrew (raw_value c)))" for c
    by (simp add: cell_value_def Let_def)
  have a: "dict_get (fill_phase pf hs 0 (take (Suc n) r) []) (col_name hs n) =
      Some (cell_value pf (r ! n))"
    by (rule fill_phase_take_stored[OF assms])
  have b: "dict_get (build_phase pf hs r) (col_name hs n) = Some (cell_value pf (r ! n))"
    if d: "\<forall>j. n < j \<and> j < length r \<longrightarrow> col_name hs j \<noteq> col_name hs n"
      and s: "col_name hs n \<noteq> stage_key"
  proof -
    have "dict_get (fill_phase pf hs 0 r []) (col_name hs (0 + n)) = Some (cell_value pf (r ! n))"
      using fill_phase_stored[of n r hs 0 pf "[]"] assms d by simp
    then show ?thesis using s by (simp add: build_phase_def Let_def dict_get_dict_set)
  qed
  have z: "raw_value (Some [48]) = [48]" "raw_value (Some [97, 98, 99]) = [97, 98, 99]"
    by (simp_all add: raw_value_def eval_str)
  have c0: "cell_value pf (Some [48]) = Num 0" if "pf [48] = Some 0"
    using that by (simp add: rule z parse_num_def clean_num_def eval_str)
  have c1: "cell_value pf (Some [97, 98, 99]) = Text [97, 98, 99]" if "pf [97, 98, 99] = None"
    using that
    by (simp add: rule z parse_num_def clean_num_def eval_str fix_hebrew_def
        reversed_patterns_def Let_def)
  show ?thesis using a b c0 c1 unfolding rule[symmetric] by simp
qed

theorem stored_cell_value_rule_witness:
  "(1::nat) < length [Some [120], Some [49, 44, 48, 48, 48], Some [48], Some [97, 98, 99::nat]] \<and>
   plain_float [48] = Some 0 \<and> plain_float [97, 98, 99] = None \<and>
   dict_get (build_phase plain_float [[1513, 1500, 1489], [97], [98], [99]]
               [Some [120], Some [49, 44, 48, 48, 48], Some [48], Some [97, 98, 99]]) [97]
     = Some (Num 1000) \<and>
   cell_value plain_float (Some [48]) = Num 0 \<and>
   cell_value plain_float (Some [97, 98, 99]) = Text [97, 98, 99]"
proof -
  let ?hs = "[[1513, 1500, 1489], [97], [98], [99::nat]]"
  let ?r = "[Some [120], Some [49, 44, 48, 48, 48], Some [48], Some [97, 98, 99::nat]]"
  have l: "(1::nat) < length ?r" by simp
  have d: "\<forall>j. 1 < j \<and> j < length ?r \<longrightarrow> col_name ?hs j \<noteq> col_name ?hs 1"
  proof (intro allI impI)
    fix j :: nat
    assume "1 < j \<and> j < length ?r"
    then have "j = 2 \<or> j = 3" by auto
    then show "col_name ?hs j \<noteq> col_name ?hs 1" by (auto simp: col_name_def)
  qed
  have s: "col_name ?hs 1 \<noteq> stage_key" by (simp add: col_name_def stage_key_def)
  have n: "col_name ?hs 1 = [97]" by (simp add: col_name_def)
  have p0: "plain_float [48] = Some 0" "plain_float [97, 98, 99] = None"
    by (simp_all add: plain_float_def is_digit_def digits_val_def)
  have v: "raw_value (Some [49, 44, 48, 48, 48]) = [49, 44, 48, 48, 48]"
    "parse_num plain_float (Some [49, 44, 48, 48, 48]) = 1000"
    by (simp_all add: raw_value_def eval_str parse_num_def clean_num_def plain_float_def
        is_digit_def digits_val_def Let_def)
  note T = stored_cell_value_rule[OF l, of plain_float ?hs]
  have stored: "dict_get (fill_phase plain_float ?hs 0 (take (Suc 1) ?r) []) (col_name ?hs 1) =
      Some (Num 1000)"
    using T[THEN conjunct1] by (simp add: v)
  have kept: "dict_get (build_phase plain_float ?hs ?r) (col_name ?hs 1) =
      dict_get (fill_phase plain_float ?hs 0 (take (Suc 1) ?r) []) (col_name ?hs 1)"
    using T[THEN conjunct2, THEN conjunct1] d s by blast
  have zero: "cell_value plain_float (Some [48]) = Num 0"
    using T[THEN conjunct2, THEN conjunct2, THEN conjunct1] p0(1) by blast
  have abc: "cell_value plain_float (Some [97, 98, 99]) = Text [97, 98, 99]"
    using T[THEN conjunct2, THEN conjunct2, THEN conjunct2] p0(2) by blast
  have "dict_get (build_phase plain_float ?hs ?r) [97] = Some (Num 1000)"
    using kept stored unfolding n by simp
  then show ?thesis using p0 zero abc by simp
qed

section \<open>The keys of a phase\<close>

text \<open>
  Every phase of the result was built from a kept row of a table that passes the
  milestone test, and its keys are the stage key together with the names of the columns
  at the cell positions of that row, taken from the header row of the row's own table.
  When one table only passes the test and its rows are as long as its header row, every
  phase has exactly the keys of the result's headers plus the stage key.
\<close>

lemma phase_keys_of_rows:
  "(\<forall>p \<in> set (phases (extract_pdf pf pdf)).
      \<exists>t \<in> set (all_tables pdf). \<exists>r \<in> set (tl t).
        is_milestone_table t \<and> \<not> skip_row r \<and>
        p = build_phase pf (build_headers (hd t)) r \<and>
        keys p = col_name (build_headers (hd t)) ` {..<length r} \<union> {stage_key} \<and>
        (length r = length (hd t) \<longrightarrow> keys p = set (build_headers (hd t)) \<union> {stage_key})) \<and>
   (\<forall>t. filter is_milestone_table (all_tables pdf) = [t] \<and>
        (\<forall>r \<in> set (tl t). length r = length (hd t)) \<longrightarrow>
        (\<forall>p \<in> set (phases (extract_pdf pf pdf)).
           keys p = set (headers (extract_pdf pf pdf)) \<union> {stage_key}))"
proof -
  have full: "keys (build_phase pf (build_headers h) r) = set (build_headers h) \<union> {stage_key}"
    if "length r = length h" for h r
    using that col_name_image_full[of "build_headers h"]
    by (simp add: keys_build_phase length_build_headers)
  have A: "\<exists>t \<in> set (all_tables pdf). \<exists>r \<in> set (tl t).
        is_milestone_table t \<and> \<not> skip_row r \<and>
        p = build_phase pf (build_headers (hd t)) r \<and>
        keys p = col_name (build_headers (hd t)) ` {..<length r} \<union> {stage_key} \<and>
        (length r = length (hd t) \<longrightarrow> keys p = set (build_headers (hd t)) \<union> {stage_key})"
    if "p \<in> set (phases (extract_pdf pf pdf))" for p
  proof -
    from that obtain t r where t: "t \<in> set (all_tables pdf)" "is_milestone_table t"
      and r: "r \<in> set (tl t)" "\<not> skip_row r"
      and p: "p = build_phase pf (build_headers (hd t)) r"
      by (auto simp: extract_phases)
    show ?thesis using t r p full[of r "hd t"]
      by (intro bexI[of _ t] bexI[of _ r]) (simp_all add: keys_build_phase)
  qed
  have B: "keys p = set (headers (extract_pdf pf pdf)) \<union> {stage_key}"
    if f: "filter is_milestone_table (all_tables pdf) = [t]"
      and len: "\<forall>r \<in> set (tl t). length r = length (hd t)"
      and p: "p \<in> set (phases (extract_pdf pf pdf))" for t p
  proof -
    have h: "headers (extract_pdf pf pdf) = build_headers (hd t)"
      by (simp add: extract_headers f)
    from p obtain r where "r \<in> set (tl t)" "p = build_phase pf (build_headers (hd t)) r"
      by (auto simp: extract_phases f)
    then show ?thesis using len full[of r "hd t"] h by simp
  qed
  show ?thesis
  proof (intro conjI ballI allI impI)
    fix p
    assume "p \<in> set (phases (extract_pdf pf pdf))"
    then show "\<exists>t \<in> set (all_tables pdf). \<exists>r \<in> set (tl t).
        is_milestone_table t \<and> \<not> skip_row r \<and>
        p = build_phase pf (build_headers (hd t)) r \<and>
        keys p = col_name (build_headers (hd t)) ` {..<length r} \<union> {stage_key} \<and>
        (length r = length (hd t) \<longrightarrow> keys p = set (build_headers (hd t)) \<union> {stage_key})"
      by (rule A)
  next
    fix t p
    assume h: "filter is_milestone_table (all_tables pdf) = [t] \<and>
        (\<forall>r \<in> set (tl t). length r = length (hd t))"
      and p: "p \<in> set (phases (extract_pdf pf pdf))"
    show "keys p = set (headers (extract_pdf pf pdf)) \<union> {stage_key}"
      by (rule B[OF conjunct1[OF h] conjunct2[OF h] p])
  qed
qed


text \<open>
  C5 at \<open>two_page_pdf\<close>, whose tables are all rectangular: the claim gives every phase
  the keys of the result's headers plus the stage key. The first phase comes from the
  first table and has that table's headers as keys, while the result's headers are those
  of the second table.
\<close>

theorem phase_keys_two_tables:
  "headers (extract_pdf plain_float two_page_pdf) = [[1513, 1500, 1489], [100], [101], [102]] \<and>
   keys (phases (extract_pdf plain_float two_page_pdf) ! 0) =
     {[1513, 1500, 1489], [97], [98], [99], stage_key} \<and>
   keys (phases (extract_pdf plain_float two_page_pdf) ! 0)
     \<noteq> set (headers (extract_pdf plain_float two_page_pdf)) \<union> {stage_key} \<and>
   map length table_a = [4, 4] \<and> map length table_plain = [4, 4] \<and> map length table_b = [4, 4]"
proof -
  have h: "headers (extract_pdf plain_float two_page_pdf) =
      [[1513, 1500, 1489], [100], [101], [102]]"
    by (simp add: extract_headers all_tables_two_page table_a_milestone table_b_milestone
        table_plain_not_milestone headers_b)
  have p: "phases (extract_pdf plain_float two_page_pdf) ! 0 =
      [([1513, 1500, 1489], Text [120]), ([97], Text []), ([98], Text []), ([99], Text []),
       (stage_key, Text [])]"
    by (simp add: extract_phases all_tables_two_page table_a_milestone table_b_milestone
        table_plain_not_milestone headers_a headers_b row_kept tl_tables phase_example)
  have k: "keys (phases (extract_pdf plain_float two_page_pdf) ! 0) =
      {[1513, 1500, 1489], [97], [98], [99], stage_key}"
    unfolding p by (auto simp: keys_def)
  have m: "[97] \<in> keys (phases (extract_pdf plain_float two_page_pdf) ! 0)"
    unfolding k by simp
  have m': "[97] \<notin> set (headers (extract_pdf plain_float two_page_pdf)) \<union> {stage_key}"
    unfolding h by (simp add: stage_key_def)
  have n: "keys (phases (extract_pdf plain_float two_page_pdf) ! 0)
      \<noteq> set (headers (extract_pdf plain_float two_page_pdf)) \<union> {stage_key}"
  proof
    assume "keys (phases (extract_pdf plain_float two_page_pdf) ! 0)
      = set (headers (extract_pdf plain_float two_page_pdf)) \<union> {stage_key}"
    with m m' show False by simp
  qed
  have l: "map length table_a = [4, 4]" "map length table_plain = [4, 4]"
    "map length table_b = [4, 4]"
    by (simp_all add: table_a_def table_plain_def table_b_def)
  show ?thesis by (intro conjI h k n l)
qed

section \<open>Summary rows\<close>

text \<open>
  A row whose text contains one of the five markers of \<open>skip_words\<close> is skipped, and
  the phases come from rows that are not skipped.
\<close>

lemma listed_marker_rows_skipped:
  "w \<in> set skip_words \<Longrightarrow> py_in w (row_text r) \<Longrightarrow> skip_row r"
  by (auto simp: skip_row_def list_ex_iff)

lemma skipped_rows_absent:
  "set (phases (extract_pdf pf pdf)) \<subseteq>
     (\<Union>t \<in> set (all_tables pdf).
        build_phase pf (build_headers (hd t)) ` {r \<in> set (tl t). \<not> skip_row r})"
  by (auto simp: extract_phases)

lemma table_summary_facts:
  "is_milestone_table table_summary"
  "build_headers (hd table_summary) = [[1513, 1500, 1489], [97], [98], [99]]"
  "tl table_summary = [[Some [1499, 34, 1492, 1505], Some [53], None, None]]"
  "all_tables summary_pdf = [table_summary]"
  by (simp_all add: is_milestone_table_def table_summary_def row_text_def cell_truthy_def
      cell_str_def stage_marker_def stage_marker_rev_def build_headers_def enumerate_eq_zip
      fix_hebrew_short upt_rec all_tables_def summary_pdf_def)

lemma summary_row_text:
  "row_text [Some [1499, 34, 1492, 1505], Some [53], None, None] = [1499, 34, 1492, 1505, 32, 53]"
  by (simp add: row_text_def cell_truthy_def cell_str_def)

lemma summary_cells:
  "cell_value plain_float (Some [1499, 34, 1492, 1505]) = Text [1499, 34, 1492, 1505]"
  "cell_value plain_float (Some [53]) = Num 5"
  by (simp_all add: eval_str eval_cell)

text \<open>
  C4 at the row of \<open>table_summary\<close>: the abbreviation for grand total is a marker, its
  reverse is in the row's text, yet the row is not skipped and becomes a phase. The list
  holds the reverse of the other two markers and not of this one.
\<close>

theorem reversed_grand_total_row_kept:
  "[1505, 1492, 34, 1499] \<in> set skip_words \<and>
   rev [1505, 1492, 34, 1499] = [1499, 34, 1492, 1505::nat] \<and>
   py_in [1499, 34, 1492, 1505] (row_text [Some [1499, 34, 1492, 1505], Some [53], None, None]) \<and>
   \<not> skip_row [Some [1499, 34, 1492, 1505], Some [53], None, None] \<and>
   phases (extract_pdf plain_float summary_pdf) =
     [[([1513, 1500, 1489], Text [1499, 34, 1492, 1505]), ([97], Num 5), ([98], Text []),
       ([99], Text []), ([95, 115, 116, 97, 103, 101], Text [])]]"
proof -
  have k: "\<not> skip_row [Some [1499, 34, 1492, 1505], Some [53], None, None]"
    by (simp add: skip_row_def summary_row_text skip_words_def cell_truthy_def)
  have p: "build_phase plain_float [[1513, 1500, 1489], [97], [98], [99]]
       [Some [1499, 34, 1492, 1505], Some [53], None, None] =
     [([1513, 1500, 1489], Text [1499, 34, 1492, 1505]), ([97], Num 5), ([98], Text []),
      ([99], Text []), ([95, 115, 116, 97, 103, 101], Text [])]"
    by (simp add: eval_phase cell_examples summary_cells)
  show ?thesis
    by (simp add: k p extract_phases table_summary_facts summary_row_text skip_words_def)
qed

end
